theory Spec2Isabelle
  imports Complex_Main "HOL-Library.Multiset"
begin

section \<open>Strategic scenario simulator: data model\<close>

text \<open>
  Shallow embedding of \<^verbatim>\<open>strategic_scenario_simulator.py\<close>.

  Conventions of the embedding:
  \<^item> Python \<^verbatim>\<open>float\<close> values (cost, probabilities, scores) are reals; rounding of
    binary floating point is not modelled.
  \<^item> A \<^verbatim>\<open>timedelta\<close> is its number of microseconds, an unbounded integer (the
    range limit of \<^verbatim>\<open>timedelta\<close> is not modelled).
  \<^item> The callables in \<^verbatim>\<open>Action.side_effects\<close> are external code. They are values
    of a type parameter \<open>'g\<close> (compared by identity, as Python compares functions) and
    are run through a parameter \<open>run\<close> that says, for each call, whether the callable
    raised, returned a falsy value or returned an effect.
  \<^item> \<^verbatim>\<open>random.random()\<close> reads the next element of an infinite sequence of draws,
    which is threaded through every function that draws.
  \<^item> \<^verbatim>\<open>list.remove\<close> raises \<^verbatim>\<open>ValueError\<close> when the element is absent; functions
    that call it return a sum, with \<open>Inl\<close> for the exception.
  \<^item> Three ways in which a run can raise are outside the model: a sum of durations
    beyond the range of \<^verbatim>\<open>timedelta\<close>, a callable that raises something that is not an
    \<^verbatim>\<open>Exception\<close>, and a callable that returns a truthy object that is not an effect.
    Nothing below states that a simulation run returns for every input; the theorems
    about paths are about the paths that a run produces.
\<close>

datatype OutcomeType = SUCCESS | PARTIAL_SUCCESS | FAILURE | CATASTROPHIC

datatype error = ValueError

type_synonym timedelta = int

record 'g Action =
  name :: string
  description :: string
  duration :: timedelta
  cost :: real
  success_probability :: real
  dependencies :: "string list"
  side_effects :: "'g list"

record SecondOrderEffect =
  source_action :: string
  effect_description :: string
  effect_probability :: real
  impact_magnitude :: real
  affected_actions :: "string list"

record 'g SimulationPath =
  path_id :: string
  actions_taken :: "'g Action list"
  outcome_type :: OutcomeType
  total_cost :: real
  total_duration :: timedelta
  probability :: real
  second_order_effects :: "SecondOrderEffect list"
  risk_score :: real

record 'g ScenarioResult =
  scenario_name :: string
  paths :: "'g SimulationPath list"
  expected_value :: real
  risk_adjusted_value :: real
  success_rate :: real
  average_cost :: real
  average_duration :: timedelta
  recommended_path :: "'g SimulationPath option"

record 'g StrategicScenarioSimulator =
  risk_tolerance :: real
  simulation_history :: "'g ScenarioResult list"

text \<open>What one call of a side-effect callable does: it raises, or returns a falsy
  value (such as \<^verbatim>\<open>None\<close>), or returns an effect.\<close>

datatype generator_result = Raised | Falsy | Produced SecondOrderEffect

type_synonym 'g generator_run =
  "'g \<Rightarrow> 'g Action \<Rightarrow> 'g Action list \<Rightarrow> 'g Action list \<Rightarrow> generator_result"

text \<open>The random source: the draws still to come. \<^verbatim>\<open>random.random()\<close> returns the
  first and leaves the rest.\<close>

type_synonym rng = "nat \<Rightarrow> real"

definition random_random :: "rng \<Rightarrow> real \<times> rng" where
  "random_random g = (g 0, (\<lambda>n. g (Suc n)))"

section \<open>Action graph resolver\<close>

text \<open>\<^verbatim>\<open>xs.remove(x)\<close>: deletes the first element equal to \<open>x\<close>, raises when there is
  none.\<close>

definition list_remove :: "'a \<Rightarrow> 'a list \<Rightarrow> error + 'a list" where
  "list_remove x xs = (if x \<in> set xs then Inr (remove1 x xs) else Inl ValueError)"

text \<open>\<^verbatim>\<open>for action in ready: remaining.remove(action)\<close> when \<open>ready\<close> is a list of its
  own (the list comprehension's result).\<close>

fun remove_each :: "'a list \<Rightarrow> 'a list \<Rightarrow> error + 'a list" where
  "remove_each [] remaining = Inr remaining"
| "remove_each (action # ready) remaining =
     (case list_remove action remaining of
        Inl e \<Rightarrow> Inl e
      | Inr remaining' \<Rightarrow> remove_each ready remaining')"

lemma list_remove_length:
  "list_remove x xs = Inr ys \<Longrightarrow> Suc (length ys) = length xs"
  by (auto simp: list_remove_def length_remove1 split: if_splits) (cases xs; simp)

text \<open>The same loop after \<^verbatim>\<open>ready = remaining\<close>: both names denote one list object, so
  the loop iterates over the list it is deleting from. Python's list iterator holds an
  index \<open>i\<close>; each round reads element \<open>i\<close> of the list as it is now, and stops as soon
  as \<open>i\<close> is not below the current length.\<close>

function remove_each_aliased :: "nat \<Rightarrow> 'a list \<Rightarrow> error + 'a list" where
  "remove_each_aliased i remaining =
     (if i < length remaining then
        (case list_remove (remaining ! i) remaining of
           Inl e \<Rightarrow> Inl e
         | Inr remaining' \<Rightarrow> remove_each_aliased (Suc i) remaining')
      else Inr remaining)"
  by pat_completeness auto
termination
  by (relation "measure (\<lambda>(i, remaining). length remaining - i)")
     (auto dest: list_remove_length)

declare remove_each_aliased.simps [simp del]

definition ready_actions :: "'g Action list \<Rightarrow> 'g Action list \<Rightarrow> 'g Action list" where
  "ready_actions sorted_actions remaining =
     [a \<leftarrow> remaining.
        \<forall>dep \<in> set (dependencies a). dep \<in> set (map name sorted_actions)]"

lemma remove_each_length:
  "remove_each ready remaining = Inr r \<Longrightarrow> length r + length ready = length remaining"
  by (induction ready arbitrary: remaining)
     (auto split: sum.splits dest: list_remove_length)

lemma remove_each_aliased_length:
  "remove_each_aliased i remaining = Inr r \<Longrightarrow> i < length remaining \<Longrightarrow>
     length r < length remaining"
proof (induction i remaining rule: remove_each_aliased.induct)
  case (1 i remaining)
  from "1.prems" obtain r' where
    r': "list_remove (remaining ! i) remaining = Inr r'"
    and rec: "remove_each_aliased (Suc i) r' = Inr r"
    by (subst (asm) remove_each_aliased.simps) (auto split: sum.splits)
  have len: "Suc (length r') = length remaining"
    using r' by (rule list_remove_length)
  show ?case
  proof (cases "Suc i < length r'")
    case True
    with "1.IH" [OF "1.prems"(2) r' rec] len show ?thesis by simp
  next
    case False
    with rec have "r = r'"
      by (subst (asm) remove_each_aliased.simps) simp
    with len show ?thesis by simp
  qed
qed

text \<open>\<^verbatim>\<open>_topological_sort\<close>: the \<^verbatim>\<open>while remaining:\<close> loop, on the two lists it
  updates.\<close>

function topological_sort_loop ::
  "'g Action list \<Rightarrow> 'g Action list \<Rightarrow> error + 'g Action list" where
  "topological_sort_loop sorted_actions remaining =
     (if remaining = [] then Inr sorted_actions
      else if ready_actions sorted_actions remaining = [] then
        (case remove_each_aliased 0 remaining of
           Inl e \<Rightarrow> Inl e
         | Inr remaining' \<Rightarrow>
             topological_sort_loop (sorted_actions @ remaining) remaining')
      else
        (case remove_each (ready_actions sorted_actions remaining) remaining of
           Inl e \<Rightarrow> Inl e
         | Inr remaining' \<Rightarrow>
             topological_sort_loop
               (sorted_actions @ ready_actions sorted_actions remaining) remaining'))"
  by pat_completeness auto
termination
proof (relation "measure (\<lambda>(sorted_actions, remaining). length remaining)")
  show "wf (measure (\<lambda>(sorted_actions :: 'g Action list, remaining :: 'g Action list).
          length remaining))"
    by simp
next
  fix sorted_actions remaining :: "'g Action list" and r
  assume "remaining \<noteq> []" and "remove_each_aliased 0 remaining = Inr r"
  then show "((sorted_actions @ remaining, r), (sorted_actions, remaining))
      \<in> measure (\<lambda>(sorted_actions, remaining). length remaining)"
    using remove_each_aliased_length [of 0 remaining r] by simp
next
  fix sorted_actions remaining :: "'g Action list" and r
  assume "ready_actions sorted_actions remaining \<noteq> []"
    and "remove_each (ready_actions sorted_actions remaining) remaining = Inr r"
  then show "((sorted_actions @ ready_actions sorted_actions remaining, r),
        (sorted_actions, remaining))
      \<in> measure (\<lambda>(sorted_actions, remaining). length remaining)"
    using remove_each_length [of "ready_actions sorted_actions remaining" remaining r]
    by (cases "ready_actions sorted_actions remaining") auto
qed

declare topological_sort_loop.simps [simp del]

definition topological_sort :: "'g Action list \<Rightarrow> error + 'g Action list" where
  "topological_sort actions = topological_sort_loop [] actions"

section \<open>Effect cascader, outcome classifier and scorer\<close>

text \<open>\<^verbatim>\<open>_simulate_second_order_effects\<close>: every callable is tried; one that raises or
  returns a falsy value adds nothing. Then the high-cost rule.\<close>

definition simulate_second_order_effects ::
  "'g generator_run \<Rightarrow> 'g Action \<Rightarrow> 'g Action list \<Rightarrow> 'g Action list
     \<Rightarrow> SecondOrderEffect list" where
  "simulate_second_order_effects run action executed_actions all_actions =
     (let effects =
        fold (\<lambda>side_effect_fn effects.
                case run side_effect_fn action executed_actions all_actions of
                  Raised \<Rightarrow> effects
                | Falsy \<Rightarrow> effects
                | Produced effect \<Rightarrow> effects @ [effect])
          (side_effects action) []
      in if cost action > 10000 then
           effects @
           [\<lparr>source_action = name action,
             effect_description = ''High cost reduces available budget'',
             effect_probability = 0.8,
             impact_magnitude = - 0.3,
             affected_actions =
               [name a. a \<leftarrow> all_actions, a \<notin> set executed_actions]\<rparr>]
         else effects)"

definition determine_outcome :: "'g Action list \<Rightarrow> 'g Action list \<Rightarrow> OutcomeType" where
  "determine_outcome executed_actions all_actions =
     (let completion_rate =
        real (length executed_actions) / real (max (length all_actions) 1)
      in if completion_rate \<ge> 0.9 then SUCCESS
         else if completion_rate \<ge> 0.6 then PARTIAL_SUCCESS
         else if completion_rate \<ge> 0.3 then FAILURE
         else CATASTROPHIC)"

definition calculate_path_probability :: "'g Action list \<Rightarrow> real" where
  "calculate_path_probability actions =
     (if actions = [] then 0
      else fold (\<lambda>action probability. probability * success_probability action)
             actions 1)"

definition calculate_risk_score :: "SecondOrderEffect list \<Rightarrow> real \<Rightarrow> real" where
  "calculate_risk_score effects accumulated_cost =
     (if effects = [] then 0
      else
        let risk =
              fold (\<lambda>effect risk.
                      if impact_magnitude effect < 0
                      then risk + \<bar>impact_magnitude effect\<bar> * effect_probability effect
                      else risk)
                effects 0;
            score = risk * (1 + accumulated_cost / 100000)
        in min score 1)"

section \<open>Path sampler\<close>

text \<open>The variables a sampling loop updates: the executed actions, the accumulated cost
  and duration, the effects, and the random source.\<close>

record 'g sampler_state =
  executed_actions :: "'g Action list"
  acc_cost :: real
  acc_duration :: timedelta
  acc_effects :: "SecondOrderEffect list"
  random_state :: rng

definition initial_state :: "rng \<Rightarrow> 'g sampler_state" where
  "initial_state g =
     \<lparr>executed_actions = [], acc_cost = 0, acc_duration = 0, acc_effects = [],
      random_state = g\<rparr>"

text \<open>One round of the loop of \<^verbatim>\<open>_run_monte_carlo_simulation\<close>. No draw is made for an
  action whose dependencies are not met (\<^verbatim>\<open>continue\<close>).\<close>

definition monte_carlo_step ::
  "'g generator_run \<Rightarrow> 'g Action list \<Rightarrow> 'g Action \<Rightarrow> 'g sampler_state
     \<Rightarrow> 'g sampler_state" where
  "monte_carlo_step run sorted_actions action st =
     (let dependencies_met =
        (\<forall>dep \<in> set (dependencies action).
           dep \<in> set (map name (executed_actions st)))
      in if \<not> dependencies_met then st
         else
           let (u, g') = random_random (random_state st);
               success = (u < success_probability action)
           in if success then
                let executed = executed_actions st @ [action]
                in \<lparr>executed_actions = executed,
                    acc_cost = acc_cost st + cost action,
                    acc_duration = acc_duration st + duration action,
                    acc_effects = acc_effects st @
                      simulate_second_order_effects run action executed sorted_actions,
                    random_state = g'\<rparr>
              else st\<lparr>random_state := g'\<rparr>)"

text \<open>\<^verbatim>\<open>str(n)\<close> for the index of a run, which \<^verbatim>\<open>range\<close> makes non-negative.\<close>

fun str_nat :: "nat \<Rightarrow> string" where
  "str_nat n =
     (if n < 10 then [''0123456789'' ! n]
      else str_nat (n div 10) @ [''0123456789'' ! (n mod 10)])"

declare str_nat.simps [simp del]

definition run_monte_carlo_simulation ::
  "'g generator_run \<Rightarrow> 'g Action list \<Rightarrow> nat \<Rightarrow> rng
     \<Rightarrow> error + ('g SimulationPath \<times> rng)" where
  "run_monte_carlo_simulation run actions simulation_id g =
     (case topological_sort actions of
        Inl e \<Rightarrow> Inl e
      | Inr sorted_actions \<Rightarrow>
          let st = fold (monte_carlo_step run sorted_actions) sorted_actions
                     (initial_state g)
          in Inr
               (\<lparr>path_id = ''mc_'' @ str_nat simulation_id,
                 actions_taken = executed_actions st,
                 outcome_type = determine_outcome (executed_actions st) actions,
                 total_cost = acc_cost st,
                 total_duration = acc_duration st,
                 probability = calculate_path_probability (executed_actions st),
                 second_order_effects = acc_effects st,
                 risk_score = calculate_risk_score (acc_effects st) (acc_cost st)\<rparr>,
                random_state st))"

text \<open>One round of the loop of \<^verbatim>\<open>_create_deterministic_path\<close>: a draw against the
  scenario's success rate for every action, whatever its dependencies.\<close>

definition deterministic_step ::
  "real \<Rightarrow> 'g Action \<Rightarrow> 'g sampler_state \<Rightarrow> 'g sampler_state" where
  "deterministic_step rate action st =
     (let (u, g') = random_random (random_state st)
      in if u < rate then
           st\<lparr>executed_actions := executed_actions st @ [action],
              acc_cost := acc_cost st + cost action,
              acc_duration := acc_duration st + duration action,
              random_state := g'\<rparr>
         else st\<lparr>random_state := g'\<rparr>)"

definition create_deterministic_path ::
  "string \<Rightarrow> 'g Action list \<Rightarrow> real \<Rightarrow> rng \<Rightarrow> 'g SimulationPath \<times> rng" where
  "create_deterministic_path path_name actions rate g =
     (let st = fold (deterministic_step rate) actions (initial_state g)
      in (\<lparr>path_id = path_name,
            actions_taken = executed_actions st,
            outcome_type = determine_outcome (executed_actions st) actions,
            total_cost = acc_cost st,
            total_duration = acc_duration st,
            probability = rate ^ length (executed_actions st),
            second_order_effects = [],
            risk_score = 1 - rate\<rparr>,
          random_state st))"

definition explore_all_paths ::
  "'g Action list \<Rightarrow> rng \<Rightarrow> error + ('g SimulationPath list \<times> rng)" where
  "explore_all_paths actions g =
     (case topological_sort actions of
        Inl e \<Rightarrow> Inl e
      | Inr sorted_actions \<Rightarrow>
          let (optimistic, g1) =
                create_deterministic_path ''optimistic'' sorted_actions 1 g;
              (realistic, g2) =
                create_deterministic_path ''realistic'' sorted_actions 0.8 g1;
              (pessimistic, g3) =
                create_deterministic_path ''pessimistic'' sorted_actions 0.5 g2
          in Inr ([optimistic, realistic, pessimistic], g3))"

section \<open>Aggregator and recommender\<close>

definition calculate_path_value :: "'g SimulationPath \<Rightarrow> real" where
  "calculate_path_value path =
     (let benefit =
        (case outcome_type path of
           SUCCESS \<Rightarrow> 100000
         | PARTIAL_SUCCESS \<Rightarrow> 50000
         | FAILURE \<Rightarrow> - 10000
         | CATASTROPHIC \<Rightarrow> - 50000)
      in benefit - total_cost path)"

text \<open>The score both the risk-adjusted value and the recommendation use.\<close>

definition path_score :: "real \<Rightarrow> 'g SimulationPath \<Rightarrow> real" where
  "path_score tolerance path =
     (let val = calculate_path_value path;
          risk_adjustment = 1 - (risk_score path * (1 - tolerance))
      in val * probability path * risk_adjustment)"

text \<open>\<^verbatim>\<open>xs.sort(key=k, reverse=True)\<close>: Python's sort is stable, and with
  \<^verbatim>\<open>reverse=True\<close> it reverses the list, sorts it stably in ascending order and
  reverses the result, so that elements with equal keys keep their order.\<close>

definition sort_reverse :: "('a \<Rightarrow> real) \<Rightarrow> 'a list \<Rightarrow> 'a list" where
  "sort_reverse k xs = rev (sort_key k (rev xs))"

definition select_recommended_path ::
  "real \<Rightarrow> 'g SimulationPath list \<Rightarrow> 'g SimulationPath option" where
  "select_recommended_path tolerance path_list =
     (if path_list = [] then None
      else
        let scored_paths = map (\<lambda>path. (path_score tolerance path, path)) path_list;
            scored_paths = sort_reverse fst scored_paths
        in if scored_paths \<noteq> [] then Some (snd (hd scored_paths)) else None)"

text \<open>\<^verbatim>\<open>timedelta(seconds=x)\<close> rounds to the nearest microsecond, ties to even.\<close>

definition round_half_even :: "real \<Rightarrow> int" where
  "round_half_even x =
     (let f = \<lfloor>x\<rfloor>; d = x - of_int f
      in if d < 1 / 2 then f
         else if d > 1 / 2 then f + 1
         else if even f then f else f + 1)"

definition timedelta_of_seconds :: "real \<Rightarrow> timedelta" where
  "timedelta_of_seconds x = round_half_even (x * 1000000)"

definition total_seconds :: "timedelta \<Rightarrow> real" where
  "total_seconds d = of_int d / 1000000"

definition analyze_simulation_results ::
  "real \<Rightarrow> string \<Rightarrow> 'g SimulationPath list \<Rightarrow> 'g ScenarioResult" where
  "analyze_simulation_results tolerance scenario path_list =
     (if path_list = [] then
        \<lparr>scenario_name = scenario, paths = [], expected_value = 0,
         risk_adjusted_value = 0, success_rate = 0, average_cost = 0,
         average_duration = 0, recommended_path = None\<rparr>
      else
        let success_paths =
              [p \<leftarrow> path_list. outcome_type p \<in> set [SUCCESS, PARTIAL_SUCCESS]]
        in \<lparr>scenario_name = scenario,
            paths = path_list,
            expected_value =
              fold (\<lambda>path ev. ev + calculate_path_value path * probability path)
                path_list 0,
            risk_adjusted_value =
              fold (\<lambda>path rav. rav + path_score tolerance path) path_list 0,
            success_rate = real (length success_paths) / real (length path_list),
            average_cost = sum_list (map total_cost path_list) / real (length path_list),
            average_duration =
              timedelta_of_seconds
                (sum_list (map (\<lambda>p. total_seconds (total_duration p)) path_list) /
                 real (length path_list)),
            recommended_path = select_recommended_path tolerance path_list\<rparr>)"

section \<open>The simulation run\<close>

text \<open>The loop \<^verbatim>\<open>for i in range(num_simulations)\<close> of \<^verbatim>\<open>simulate_scenario\<close>.\<close>

fun monte_carlo_runs ::
  "'g generator_run \<Rightarrow> 'g Action list \<Rightarrow> nat list \<Rightarrow> 'g SimulationPath list \<Rightarrow> rng
     \<Rightarrow> error + ('g SimulationPath list \<times> rng)" where
  "monte_carlo_runs run actions [] path_list g = Inr (path_list, g)"
| "monte_carlo_runs run actions (i # ids) path_list g =
     (case run_monte_carlo_simulation run actions i g of
        Inl e \<Rightarrow> Inl e
      | Inr (path, g') \<Rightarrow> monte_carlo_runs run actions ids (path_list @ [path]) g')"

text \<open>\<^verbatim>\<open>simulate_scenario\<close> returns the result; the simulator (with the result
  appended to its history) and the random source are returned with it.\<close>

definition simulate_scenario ::
  "'g generator_run \<Rightarrow> 'g StrategicScenarioSimulator \<Rightarrow> rng \<Rightarrow> string
     \<Rightarrow> 'g Action list \<Rightarrow> int \<Rightarrow> bool
     \<Rightarrow> error + ('g ScenarioResult \<times> 'g StrategicScenarioSimulator \<times> rng)" where
  "simulate_scenario run self g scenario actions num_simulations monte_carlo =
     (case (if monte_carlo
            then monte_carlo_runs run actions [0..<nat num_simulations] [] g
            else explore_all_paths actions g) of
        Inl e \<Rightarrow> Inl e
      | Inr (path_list, g') \<Rightarrow>
          let result = analyze_simulation_results (risk_tolerance self) scenario path_list
          in Inr (result,
                  self\<lparr>simulation_history := simulation_history self @ [result]\<rparr>,
                  g'))"

section \<open>Vocabulary for the resolver's contract\<close>

text \<open>The dependency graph on names: an edge from each dependency name to the name of
  the action that lists it.\<close>

definition dependency_graph :: "'g Action list \<Rightarrow> (string \<times> string) set" where
  "dependency_graph actions =
     (\<Union>a \<in> set actions. (\<lambda>dep. (dep, name a)) ` set (dependencies a))"

text \<open>Every listed dependency names an action of the set.\<close>

definition dependencies_present :: "'g Action list \<Rightarrow> bool" where
  "dependencies_present actions =
     (\<forall>a \<in> set actions. \<forall>dep \<in> set (dependencies a). dep \<in> set (map name actions))"

text \<open>Every element of the sequence comes after actions bearing each of the names in
  its dependency list.\<close>

definition dependency_ordered :: "'g Action list \<Rightarrow> bool" where
  "dependency_ordered xs =
     (\<forall>pre a post. xs = pre @ a # post \<longrightarrow>
        (\<forall>dep \<in> set (dependencies a). dep \<in> set (map name pre)))"

section \<open>The resolver returns\<close>

lemma remove_each_filter:
  "\<forall>z \<in> set zs. \<not> P z \<Longrightarrow>
     remove_each (filter P xs) (zs @ xs) = Inr (zs @ filter (\<lambda>x. \<not> P x) xs)"
proof (induction xs arbitrary: zs)
  case Nil
  then show ?case by simp
next
  case (Cons x xs)
  show ?case
  proof (cases "P x")
    case True
    with Cons.prems have "x \<notin> set zs" by auto
    then have "list_remove x (zs @ x # xs) = Inr (zs @ xs)"
      by (simp add: list_remove_def remove1_append)
    with True Cons.IH [OF Cons.prems] show ?thesis by simp
  next
    case False
    with Cons.prems have "\<forall>z \<in> set (zs @ [x]). \<not> P z" by simp
    from Cons.IH [OF this] False show ?thesis by simp
  qed
qed

lemma remove_each_ready:
  "remove_each (ready_actions sorted_actions remaining) remaining =
     Inr [a \<leftarrow> remaining. a \<notin> set (ready_actions sorted_actions remaining)]"
proof -
  have "remove_each (ready_actions sorted_actions remaining) ([] @ remaining) =
      Inr ([] @ [a \<leftarrow> remaining.
        \<not> (\<forall>dep \<in> set (dependencies a). dep \<in> set (map name sorted_actions))])"
    unfolding ready_actions_def by (rule remove_each_filter) simp
  moreover have "[a \<leftarrow> remaining.
        \<not> (\<forall>dep \<in> set (dependencies a). dep \<in> set (map name sorted_actions))] =
     [a \<leftarrow> remaining. a \<notin> set (ready_actions sorted_actions remaining)]"
    by (rule filter_cong) (auto simp: ready_actions_def)
  ultimately show ?thesis by simp
qed

lemma remove_each_aliased_total:
  "\<exists>r. remove_each_aliased i remaining = Inr r \<and> set r \<subseteq> set remaining"
proof (induction i remaining rule: remove_each_aliased.induct)
  case (1 i remaining)
  show ?case
  proof (cases "i < length remaining")
    case True
    let ?r' = "remove1 (remaining ! i) remaining"
    from True have r': "list_remove (remaining ! i) remaining = Inr ?r'"
      by (simp add: list_remove_def)
    from "1.IH" [OF True r'] obtain r where
      r: "remove_each_aliased (Suc i) ?r' = Inr r" "set r \<subseteq> set ?r'" by blast
    have "remove_each_aliased i remaining = remove_each_aliased (Suc i) ?r'"
      by (subst remove_each_aliased.simps) (simp add: True r')
    moreover have "set ?r' \<subseteq> set remaining" by (rule set_remove1_subset)
    ultimately show ?thesis using r by auto
  next
    case False
    then have "remove_each_aliased i remaining = Inr remaining"
      by (subst remove_each_aliased.simps) simp
    then show ?thesis by simp
  qed
qed

lemma topological_sort_loop_total:
  "\<exists>rest. topological_sort_loop sorted_actions remaining = Inr (sorted_actions @ rest)
      \<and> set rest \<subseteq> set remaining"
proof (induction sorted_actions remaining rule: topological_sort_loop.induct)
  case (1 sorted_actions remaining)
  show ?case
  proof (cases "remaining = []")
    case True
    then have "topological_sort_loop sorted_actions remaining = Inr (sorted_actions @ [])"
      by (subst topological_sort_loop.simps) simp
    then show ?thesis by simp
  next
    case nonempty: False
    show ?thesis
    proof (cases "ready_actions sorted_actions remaining = []")
      case True
      obtain r where r: "remove_each_aliased 0 remaining = Inr r" "set r \<subseteq> set remaining"
        using remove_each_aliased_total [of 0 remaining] by blast
      from "1.IH"(1) [OF nonempty True r(1)] obtain rest where rest:
        "topological_sort_loop (sorted_actions @ remaining) r =
           Inr ((sorted_actions @ remaining) @ rest)" "set rest \<subseteq> set r" by blast
      have "topological_sort_loop sorted_actions remaining =
          topological_sort_loop (sorted_actions @ remaining) r"
        by (subst topological_sort_loop.simps) (simp add: nonempty True r(1))
      with rest have "topological_sort_loop sorted_actions remaining =
          Inr (sorted_actions @ (remaining @ rest))" by simp
      moreover have "set (remaining @ rest) \<subseteq> set remaining"
        using rest(2) r(2) by auto
      ultimately show ?thesis by blast
    next
      case False
      let ?ready = "ready_actions sorted_actions remaining"
      let ?r = "[a \<leftarrow> remaining. a \<notin> set ?ready]"
      have r: "remove_each ?ready remaining = Inr ?r" by (rule remove_each_ready)
      from "1.IH"(2) [OF nonempty False r] obtain rest where rest:
        "topological_sort_loop (sorted_actions @ ?ready) ?r =
           Inr ((sorted_actions @ ?ready) @ rest)" "set rest \<subseteq> set ?r" by blast
      have "topological_sort_loop sorted_actions remaining =
          topological_sort_loop (sorted_actions @ ?ready) ?r"
        by (subst topological_sort_loop.simps) (simp add: nonempty False r)
      with rest have "topological_sort_loop sorted_actions remaining =
          Inr (sorted_actions @ (?ready @ rest))" by simp
      moreover have "set ?ready \<subseteq> set remaining" by (auto simp: ready_actions_def)
      then have "set (?ready @ rest) \<subseteq> set remaining" using rest(2) by auto
      ultimately show ?thesis by blast
    qed
  qed
qed

section \<open>Concrete inputs\<close>

text \<open>An action without side-effect callables, lasting one second.\<close>

definition plain_action :: "string \<Rightarrow> real \<Rightarrow> real \<Rightarrow> string list \<Rightarrow> unit Action" where
  "plain_action n c p deps =
     \<lparr>name = n, description = [], duration = 1000000, cost = c,
      success_probability = p, dependencies = deps, side_effects = []\<rparr>"

definition no_generators :: "unit generator_run" where
  "no_generators fn action executed all_actions = Falsy"

text \<open>A random source that yields the listed draws, then zeros.\<close>

definition draws_from :: "real list \<Rightarrow> rng" where
  "draws_from ds = (\<lambda>n. if n < length ds then ds ! n else 0)"

definition default_simulator :: "unit StrategicScenarioSimulator" where
  "default_simulator = \<lparr>risk_tolerance = 0.5, simulation_history = []\<rparr>"

text \<open>Two actions that depend on each other.\<close>

definition cycle_a :: "unit Action" where
  "cycle_a = plain_action ''A'' 100 0.8 [''B'']"

definition cycle_b :: "unit Action" where
  "cycle_b = plain_action ''B'' 100 0.8 [''A'']"

text \<open>A clean plan: \<open>second\<close> depends on \<open>first\<close>.\<close>

definition step_first :: "unit Action" where
  "step_first = plain_action ''first'' 100 0.8 []"

definition step_second :: "unit Action" where
  "step_second = plain_action ''second'' 100 0.8 [''first'']"

text \<open>A purchase above the high-cost threshold, and a refund that depends on it.\<close>

definition costly :: "unit Action" where
  "costly = plain_action ''purchase'' 20000 1 []"

definition refund :: "unit Action" where
  "refund = plain_action ''refund'' (- 400000) 1 [''purchase'']"

text \<open>An action with a dependency that nothing bears, and an action without
  dependencies.\<close>

definition dangling :: "unit Action" where
  "dangling = plain_action ''A'' 100 0.8 [''ghost'']"

definition unlucky :: "unit Action" where
  "unlucky = plain_action ''A'' 100 0.8 []"

lemmas fixture_defs = plain_action_def no_generators_def draws_from_def default_simulator_def
  cycle_a_def cycle_b_def step_first_def step_second_def

lemma cycle_sorted: "topological_sort [cycle_a, cycle_b] = Inr [cycle_a, cycle_b, cycle_b]"
  by (simp add: topological_sort_def topological_sort_loop.simps remove_each_aliased.simps
      ready_actions_def list_remove_def fixture_defs)

section \<open>Where the code departs from the specification\<close>

text \<open>
  Claim C3 (the probability of a path is the product of the success probabilities used for
  its executed actions, and 0.0 when no action executed, in either mode). In deterministic
  mode the code computes \<^verbatim>\<open>success_rate ** len(executed_actions)\<close>, which is 1 for a
  path that executed nothing, where \<^verbatim>\<open>_calculate_path_probability\<close> of the Monte Carlo
  mode returns 0.0. With one action and the draws 0, 0.9, 0.9 the realistic and the
  pessimistic paths execute nothing and have probability 1.
\<close>

theorem deterministic_empty_path_probability_one:
  "map_sum id (map actions_taken \<circ> fst)
     (explore_all_paths [step_first] (draws_from [0, 0.9, 0.9]))
   = Inr [[step_first], [], []] \<and>
   map_sum id (map probability \<circ> fst)
     (explore_all_paths [step_first] (draws_from [0, 0.9, 0.9]))
   = Inr [1, 1, 1]"
  by code_simp

text \<open>
  Claim C4 (an action is in \<open>actions_taken\<close> only if every name in its dependency list
  is the name of an action earlier in \<open>actions_taken\<close>, in both modes).
  \<^verbatim>\<open>_create_deterministic_path\<close> never looks at the dependencies: with the draws
  0, 0, 0.9, 0.1 the realistic path fails \<open>first\<close> (0.9 is not below 0.8) and executes
  \<open>second\<close>, which depends on it.
\<close>

theorem deterministic_path_ignores_dependencies:
  "map_sum id (map (map name \<circ> actions_taken) \<circ> fst)
     (explore_all_paths [step_first, step_second] (draws_from [0, 0, 0.9, 0.1]))
   = Inr [[''first'', ''second''], [''second''], [''first'', ''second'']]"
  by code_simp

text \<open>
  Claim C6 (for every action set with unique names, also with a cycle or a dangling
  dependency, the resolver returns a permutation of the input). After
  \<^verbatim>\<open>ready = remaining\<close> the loop \<^verbatim>\<open>for action in ready: remaining.remove(action)\<close>
  deletes from the list it iterates over and skips every other element; the skipped
  actions stay in \<open>remaining\<close> and are appended a second time. For two actions that
  depend on each other the result has three elements.
\<close>

theorem topological_sort_cycle_duplicates:
  "distinct (map name [cycle_a, cycle_b]) \<and>
   topological_sort [cycle_a, cycle_b] = Inr [cycle_a, cycle_b, cycle_b]"
  by (simp add: topological_sort_def topological_sort_loop.simps remove_each_aliased.simps
      ready_actions_def list_remove_def fixture_defs)

text \<open>
  Claim C7 (in both modes \<open>actions_taken\<close> is a duplicate-free subsequence of the
  resolver's ordering, and the totals are the sums over it). The duplicate that the
  resolver leaves for a cyclic action set reaches the deterministic paths: here every
  draw is 0, each of the three paths executes \<open>B\<close> twice, and the total cost is 300
  where the two actions cost 200.
\<close>

theorem deterministic_path_duplicate_action:
  "map_sum id (map actions_taken \<circ> fst)
     (explore_all_paths [cycle_a, cycle_b] (draws_from []))
   = Inr [[cycle_a, cycle_b, cycle_b], [cycle_a, cycle_b, cycle_b],
          [cycle_a, cycle_b, cycle_b]] \<and>
   map_sum id (map total_cost \<circ> fst)
     (explore_all_paths [cycle_a, cycle_b] (draws_from []))
   = Inr [300, 300, 300]"
  apply (simp add: explore_all_paths_def cycle_sorted create_deterministic_path_def
      deterministic_step_def random_random_def draws_from_def initial_state_def)
  apply (simp add: fixture_defs)
  done

section \<open>The recommender picks the first path of maximal score\<close>

lemma sorted_key_last_max:
  assumes "sorted (map k s)" and "x \<in> set s"
  shows "k x \<le> k (last s)"
proof (cases s rule: rev_cases)
  case Nil
  with assms(2) show ?thesis by simp
next
  case (snoc b l)
  with assms show ?thesis by (auto simp: sorted_append)
qed

lemma last_filter_last:
  assumes "s \<noteq> []" and "P (last s)"
  shows "last (filter P s) = last s"
proof (cases s rule: rev_cases)
  case Nil
  with assms(1) show ?thesis by simp
next
  case (snoc b l)
  with assms(2) show ?thesis by simp
qed

lemma last_sort_key:
  fixes k :: "'a \<Rightarrow> real"
  assumes "ys \<noteq> []"
  shows "last (sort_key k ys) = last (filter (\<lambda>y. k y = k (last (sort_key k ys))) ys)"
    and "\<forall>y \<in> set ys. k y \<le> k (last (sort_key k ys))"
    and "last (sort_key k ys) \<in> set ys"
proof -
  let ?s = "sort_key k ys"
  from assms have ne: "?s \<noteq> []" by (metis length_sort length_0_conv)
  have "last (filter (\<lambda>y. k y = k (last ?s)) ?s) = last ?s"
    using ne by (rule last_filter_last) simp
  then show "last ?s = last (filter (\<lambda>y. k y = k (last ?s)) ys)"
    by (simp add: sort_key_stable)
  show "\<forall>y \<in> set ys. k y \<le> k (last ?s)"
    using sorted_key_last_max [of k ?s] by simp
  from ne have "last ?s \<in> set ?s" by (rule last_in_set)
  then show "last ?s \<in> set ys" by simp
qed

lemma hd_sort_reverse:
  fixes k :: "'a \<Rightarrow> real"
  assumes "xs \<noteq> []"
  shows "hd (sort_reverse k xs) =
           hd (filter (\<lambda>x. k x = k (hd (sort_reverse k xs))) xs)"
    and "\<forall>x \<in> set xs. k x \<le> k (hd (sort_reverse k xs))"
    and "hd (sort_reverse k xs) \<in> set xs"
proof -
  from assms have ne: "rev xs \<noteq> []" by simp
  have s: "sort_key k (rev xs) \<noteq> []"
    using ne by (metis length_sort length_0_conv)
  have h: "hd (sort_reverse k xs) = last (sort_key k (rev xs))"
    using s by (simp add: sort_reverse_def hd_rev)
  have "filter (\<lambda>x. k x = k (hd (sort_reverse k xs))) xs \<noteq> []"
    using last_sort_key(3) [OF ne, of k] h by (auto simp: filter_empty_conv)
  then have "hd (filter (\<lambda>x. k x = k (hd (sort_reverse k xs))) xs) =
      last (filter (\<lambda>x. k x = k (hd (sort_reverse k xs))) (rev xs))"
    by (simp add: last_rev flip: rev_filter)
  with last_sort_key(1) [OF ne, of k] h
  show "hd (sort_reverse k xs) =
           hd (filter (\<lambda>x. k x = k (hd (sort_reverse k xs))) xs)" by simp
  from last_sort_key(2) [OF ne, of k] h
  show "\<forall>x \<in> set xs. k x \<le> k (hd (sort_reverse k xs))" by simp
  from last_sort_key(3) [OF ne, of k] h
  show "hd (sort_reverse k xs) \<in> set xs" by simp
qed

lemma hd_filter_index:
  assumes "filter P xs \<noteq> []"
  shows "\<exists>i < length xs. hd (filter P xs) = xs ! i \<and> P (xs ! i) \<and> (\<forall>j < i. \<not> P (xs ! j))"
  using assms
proof (induction xs)
  case Nil
  then show ?case by simp
next
  case (Cons x xs)
  show ?case
  proof (cases "P x")
    case True
    then have "0 < length (x # xs) \<and> hd (filter P (x # xs)) = (x # xs) ! 0 \<and>
        P ((x # xs) ! 0) \<and> (\<forall>j < 0. \<not> P ((x # xs) ! j))" by simp
    then show ?thesis by (rule exI [of _ 0])
  next
    case False
    with Cons.prems have "filter P xs \<noteq> []" by simp
    from Cons.IH [OF this] obtain i where i: "i < length xs"
      "hd (filter P xs) = xs ! i" "P (xs ! i)" "\<forall>j < i. \<not> P (xs ! j)" by blast
    have "\<forall>j < Suc i. \<not> P ((x # xs) ! j)"
    proof (intro allI impI)
      fix j assume "j < Suc i"
      then show "\<not> P ((x # xs) ! j)" using False i(4) by (cases j) simp_all
    qed
    with i False have "Suc i < length (x # xs) \<and> hd (filter P (x # xs)) = (x # xs) ! Suc i \<and>
        P ((x # xs) ! Suc i) \<and> (\<forall>j < Suc i. \<not> P ((x # xs) ! j))" by simp
    then show ?thesis by (rule exI [of _ "Suc i"])
  qed
qed

lemma select_recommended_path_first_max:
  assumes "path_list \<noteq> []"
  shows "\<exists>i < length path_list.
           select_recommended_path tolerance path_list = Some (path_list ! i) \<and>
           (\<forall>j < length path_list.
              path_score tolerance (path_list ! j) \<le> path_score tolerance (path_list ! i)) \<and>
           (\<forall>j < i.
              path_score tolerance (path_list ! j) < path_score tolerance (path_list ! i))"
proof -
  define f where "f = (\<lambda>path :: 'a SimulationPath. (path_score tolerance path, path))"
  define scored where "scored = map f path_list"
  define top where "top = hd (sort_reverse fst scored)"
  define m where "m = fst top"
  from assms have ne: "scored \<noteq> []" by (simp add: scored_def)
  have "length (sort_reverse fst scored) = length scored"
    by (simp add: sort_reverse_def)
  with ne have sorted_ne: "sort_reverse fst scored \<noteq> []" by auto
  have sel: "select_recommended_path tolerance path_list = Some (snd top)"
    using assms sorted_ne
    by (simp add: select_recommended_path_def top_def scored_def f_def)
  have top: "top = hd (filter (\<lambda>x. fst x = m) scored)"
    unfolding top_def m_def by (rule hd_sort_reverse(1) [OF ne])
  have le: "\<forall>x \<in> set scored. fst x \<le> m"
    unfolding top_def m_def by (rule hd_sort_reverse(2) [OF ne])
  have mem: "top \<in> set scored"
    unfolding top_def by (rule hd_sort_reverse(3) [OF ne])
  have filt: "filter (\<lambda>x. fst x = m) scored =
      map f (filter (\<lambda>p. path_score tolerance p = m) path_list)"
    by (simp add: scored_def f_def filter_map comp_def)
  from mem have "\<exists>p \<in> set path_list. path_score tolerance p = m"
    by (auto simp: scored_def f_def m_def)
  then have nonempty: "filter (\<lambda>p. path_score tolerance p = m) path_list \<noteq> []"
    by (simp add: filter_empty_conv)
  from hd_filter_index [OF nonempty] obtain i where i: "i < length path_list"
    and hd_i: "hd (filter (\<lambda>p. path_score tolerance p = m) path_list) = path_list ! i"
    and at_i: "path_score tolerance (path_list ! i) = m"
    and before: "\<forall>j < i. path_score tolerance (path_list ! j) \<noteq> m"
    by blast
  have "top = f (path_list ! i)"
    unfolding top filt using nonempty hd_i by (simp add: hd_map)
  then have "snd top = path_list ! i" by (simp add: f_def)
  with sel have 1: "select_recommended_path tolerance path_list = Some (path_list ! i)"
    by simp
  have 2: "\<forall>j < length path_list.
      path_score tolerance (path_list ! j) \<le> path_score tolerance (path_list ! i)"
  proof (intro allI impI)
    fix j assume "j < length path_list"
    then have "f (path_list ! j) \<in> set scored" by (simp add: scored_def)
    with le have "fst (f (path_list ! j)) \<le> m" by blast
    then show "path_score tolerance (path_list ! j) \<le> path_score tolerance (path_list ! i)"
      by (simp add: f_def at_i)
  qed
  have 3: "\<forall>j < i. path_score tolerance (path_list ! j) < path_score tolerance (path_list ! i)"
  proof (intro allI impI)
    fix j assume j: "j < i"
    with before have "path_score tolerance (path_list ! j) \<noteq> m" by simp
    moreover from j i 2
    have "path_score tolerance (path_list ! j) \<le> path_score tolerance (path_list ! i)"
      by simp
    ultimately show "path_score tolerance (path_list ! j) < path_score tolerance (path_list ! i)"
      using at_i by simp
  qed
  from i 1 2 3 show ?thesis by blast
qed

section \<open>Simulating an empty action set\<close>

text \<open>The path a Monte Carlo run produces when there is nothing to execute.\<close>

definition empty_run_path :: "nat \<Rightarrow> 'g SimulationPath" where
  "empty_run_path i =
     \<lparr>path_id = ''mc_'' @ str_nat i, actions_taken = [], outcome_type = CATASTROPHIC,
      total_cost = 0, total_duration = 0, probability = 0, second_order_effects = [],
      risk_score = 0\<rparr>"

lemma topological_sort_empty: "topological_sort [] = Inr []"
  by (simp add: topological_sort_def topological_sort_loop.simps)

lemma run_monte_carlo_simulation_empty:
  "run_monte_carlo_simulation run [] i g = Inr (empty_run_path i, g)"
  by (simp add: run_monte_carlo_simulation_def topological_sort_empty initial_state_def
      determine_outcome_def calculate_path_probability_def calculate_risk_score_def
      empty_run_path_def)

lemma monte_carlo_runs_empty:
  "monte_carlo_runs run [] ids path_list g = Inr (path_list @ map empty_run_path ids, g)"
  by (induction ids arbitrary: path_list) (simp_all add: run_monte_carlo_simulation_empty)

lemma path_score_empty_run: "path_score tolerance (empty_run_path i) = 0"
  by (simp add: path_score_def empty_run_path_def)

lemma select_recommended_path_empty_runs:
  assumes "ids \<noteq> []"
  shows "select_recommended_path tolerance (map empty_run_path ids) =
           Some (empty_run_path (hd ids))"
proof -
  let ?ps = "map empty_run_path ids :: 'a SimulationPath list"
  from assms have "?ps \<noteq> []" by simp
  from select_recommended_path_first_max [OF this, of tolerance]
  obtain i where i: "i < length ?ps"
    and sel: "select_recommended_path tolerance ?ps = Some (?ps ! i)"
    and first: "\<forall>j < i. path_score tolerance (?ps ! j) < path_score tolerance (?ps ! i)"
    by blast
  have "i = 0"
  proof (rule ccontr)
    assume "i \<noteq> 0"
    then have "0 < i" by simp
    with first have "path_score tolerance (?ps ! 0) < path_score tolerance (?ps ! i)"
      by blast
    moreover from assms have "0 < length ids" by simp
    then have "path_score tolerance (?ps ! 0) = 0" "path_score tolerance (?ps ! i) = 0"
      using i by (simp_all add: path_score_empty_run)
    ultimately show False by simp
  qed
  with sel assms show ?thesis by (simp add: hd_conv_nth)
qed

lemma simulate_scenario_empty:
  "simulate_scenario run self g scenario [] n True =
     Inr (analyze_simulation_results (risk_tolerance self) scenario
            (map empty_run_path [0..<nat n]),
          self\<lparr>simulation_history := simulation_history self @
            [analyze_simulation_results (risk_tolerance self) scenario
               (map empty_run_path [0..<nat n])]\<rparr>,
          g)"
  by (simp add: simulate_scenario_def monte_carlo_runs_empty Let_def)

lemma analyze_empty_runs:
  assumes "0 < n"
  shows "success_rate (analyze_simulation_results tolerance scenario
            (map empty_run_path [0..<n])) = 0"
    and "paths (analyze_simulation_results tolerance scenario
            (map empty_run_path [0..<n])) = map empty_run_path [0..<n]"
    and "recommended_path (analyze_simulation_results tolerance scenario
            (map empty_run_path [0..<n])) = Some (empty_run_path 0)"
proof -
  from assms have ne: "[0..<n] \<noteq> []" by simp
  show "success_rate (analyze_simulation_results tolerance scenario
            (map empty_run_path [0..<n])) = 0"
    using ne
    by (simp add: analyze_simulation_results_def Let_def filter_map comp_def
        empty_run_path_def)
  show "paths (analyze_simulation_results tolerance scenario
            (map empty_run_path [0..<n])) = map empty_run_path [0..<n]"
    using ne by (simp add: analyze_simulation_results_def Let_def)
  have "hd [0..<n] = 0" using assms by (simp add: hd_conv_nth)
  with select_recommended_path_empty_runs [OF ne, of tolerance]
  show "recommended_path (analyze_simulation_results tolerance scenario
            (map empty_run_path [0..<n])) = Some (empty_run_path 0)"
    using ne by (simp add: analyze_simulation_results_def Let_def)
qed

text \<open>A path with a given identifier, outcome, cost, probability and risk score.\<close>

definition sample_path ::
  "string \<Rightarrow> OutcomeType \<Rightarrow> real \<Rightarrow> real \<Rightarrow> real \<Rightarrow> unit SimulationPath" where
  "sample_path ident outcome c p r =
     \<lparr>path_id = ident, actions_taken = [], outcome_type = outcome, total_cost = c,
      total_duration = 0, probability = p, second_order_effects = [], risk_score = r\<rparr>"

section \<open>Claims about the aggregator\<close>

lemma analyze_no_paths:
  "success_rate (analyze_simulation_results tolerance scenario []) = 0"
  "paths (analyze_simulation_results tolerance scenario []) = []"
  "recommended_path (analyze_simulation_results tolerance scenario []) = None"
  by (simp_all add: analyze_simulation_results_def)

text \<open>
  Claim C2, as the specification states it: simulating an empty action set in Monte
  Carlo mode with 100 samples returns a result whose \<open>paths\<close> list is empty and whose
  recommended path is absent. The loop over \<^verbatim>\<open>range(num_simulations)\<close> runs whatever
  the action set is, so the result has 100 paths and recommends the first.
\<close>

theorem empty_action_set_counterexample:
  "map_sum id (length \<circ> paths \<circ> fst)
     (simulate_scenario no_generators default_simulator (draws_from []) ''x'' [] 100 True)
   = Inr 100 \<and>
   map_sum id (map_option path_id \<circ> recommended_path \<circ> fst)
     (simulate_scenario no_generators default_simulator (draws_from []) ''x'' [] 100 True)
   = Inr (Some ''mc_0'')"
  by (simp add: simulate_scenario_empty analyze_empty_runs empty_run_path_def
      str_nat.simps)

text \<open>
  Claim C2, amended: simulating an empty action set in Monte Carlo mode is not an error.
  With \<open>n\<close> samples it returns a result whose success rate is 0 and whose \<open>paths\<close> list
  holds one path per sample, \<open>mc_0\<close>, \<open>mc_1\<close>, ..., each with no action taken,
  classified CATASTROPHIC, of probability 0 and risk score 0. When \<open>n\<close> is at least 1 (as
  with 100 samples) the recommended path is the first of them, \<open>mc_0\<close>; the \<open>paths\<close>
  list is empty and the recommended path absent exactly when \<open>n\<close> is 0 or negative. This
  holds for every simulator (whatever its risk tolerance), every random source and every
  scenario name.
\<close>

theorem simulate_empty_action_set:
  fixes self :: "'g StrategicScenarioSimulator"
  shows "\<exists>result.
     simulate_scenario run self g scenario [] n True =
       Inr (result, self\<lparr>simulation_history := simulation_history self @ [result]\<rparr>, g) \<and>
     success_rate result = 0 \<and>
     paths result = map empty_run_path [0..<nat n] \<and>
     length (paths result) = nat n \<and>
     (paths result = [] \<longleftrightarrow> n \<le> 0) \<and>
     recommended_path result = (if n \<le> 0 then None else Some (empty_run_path 0)) \<and>
     (recommended_path result = None \<longleftrightarrow> n \<le> 0) \<and>
     (\<forall>i. path_id (empty_run_path i :: 'g SimulationPath) = ''mc_'' @ str_nat i \<and>
          actions_taken (empty_run_path i :: 'g SimulationPath) = [] \<and>
          outcome_type (empty_run_path i :: 'g SimulationPath) = CATASTROPHIC \<and>
          probability (empty_run_path i :: 'g SimulationPath) = 0 \<and>
          risk_score (empty_run_path i :: 'g SimulationPath) = 0)"
proof -
  let ?result = "analyze_simulation_results (risk_tolerance self) scenario
     (map empty_run_path [0..<nat n]) :: 'g ScenarioResult"
  have run: "simulate_scenario run self g scenario [] n True =
      Inr (?result, self\<lparr>simulation_history := simulation_history self @ [?result]\<rparr>, g)"
    by (rule simulate_scenario_empty)
  have fields: "\<forall>i. path_id (empty_run_path i :: 'g SimulationPath) = ''mc_'' @ str_nat i \<and>
          actions_taken (empty_run_path i :: 'g SimulationPath) = [] \<and>
          outcome_type (empty_run_path i :: 'g SimulationPath) = CATASTROPHIC \<and>
          probability (empty_run_path i :: 'g SimulationPath) = 0 \<and>
          risk_score (empty_run_path i :: 'g SimulationPath) = 0"
    by (simp add: empty_run_path_def)
  have rest: "success_rate ?result = 0 \<and>
     paths ?result = map empty_run_path [0..<nat n] \<and>
     length (paths ?result) = nat n \<and>
     (paths ?result = [] \<longleftrightarrow> n \<le> 0) \<and>
     recommended_path ?result = (if n \<le> 0 then None else Some (empty_run_path 0)) \<and>
     (recommended_path ?result = None \<longleftrightarrow> n \<le> 0)"
  proof (cases "n \<le> 0")
    case True
    then have "[0..<nat n] = []" by simp
    with True show ?thesis by (simp add: analyze_no_paths)
  next
    case False
    then have pos: "0 < nat n" by simp
    have "success_rate ?result = 0"
      and p: "paths ?result = map empty_run_path [0..<nat n]"
      and r: "recommended_path ?result = Some (empty_run_path 0)"
      by (rule analyze_empty_runs [OF pos])+
    moreover from p have "length (paths ?result) = nat n" by simp
    moreover from p pos have "paths ?result \<noteq> []" by simp
    ultimately show ?thesis using False by simp
  qed
  from run rest fields show ?thesis by (intro exI [of _ ?result] conjI) simp_all
qed

text \<open>The example of the specification: scenario \<open>x\<close>, no actions, 100 samples, risk
  tolerance 0.5.\<close>

theorem simulate_empty_action_set_witness:
  "\<exists>result.
     simulate_scenario no_generators default_simulator (draws_from []) ''x'' [] 100 True =
       Inr (result,
            default_simulator\<lparr>simulation_history :=
              simulation_history default_simulator @ [result]\<rparr>,
            draws_from []) \<and>
     success_rate result = 0 \<and>
     length (paths result) = 100 \<and>
     paths result \<noteq> [] \<and>
     recommended_path result = Some (empty_run_path 0) \<and>
     path_id (empty_run_path 0 :: unit SimulationPath) = ''mc_0''"
proof -
  from simulate_empty_action_set [of no_generators default_simulator "draws_from []"
      "''x''" 100]
  obtain result where
    "simulate_scenario no_generators default_simulator (draws_from []) ''x'' [] 100 True =
       Inr (result,
            default_simulator\<lparr>simulation_history :=
              simulation_history default_simulator @ [result]\<rparr>,
            draws_from [])"
    "success_rate result = 0"
    "length (paths result) = nat 100"
    "paths result = [] \<longleftrightarrow> (100 :: int) \<le> 0"
    "recommended_path result =
       (if (100 :: int) \<le> 0 then None else Some (empty_run_path 0))"
    by blast
  moreover have "path_id (empty_run_path 0 :: unit SimulationPath) = ''mc_0''"
    by (simp add: empty_run_path_def str_nat.simps)
  ultimately show ?thesis by (intro exI [of _ result]) simp
qed

text \<open>
  Claim C10: for every non-empty path list, the recommended path is a path of that list
  that maximises path value \<open>\<times>\<close> path probability \<open>\<times>\<close> (1 \<open>-\<close> risk score \<open>\<times>\<close>
  (1 \<open>-\<close> risk tolerance)), where the path value is the fixed payoff of the outcome
  minus the accumulated cost; among the paths of maximal score it is the first in input
  order (every earlier path has a strictly smaller score).
\<close>

theorem recommended_path_first_maximal:
  assumes "path_list \<noteq> []"
  shows "(\<exists>i < length path_list.
            recommended_path (analyze_simulation_results tolerance scenario path_list) =
              Some (path_list ! i) \<and>
            (\<forall>j < length path_list.
               path_score tolerance (path_list ! j) \<le> path_score tolerance (path_list ! i)) \<and>
            (\<forall>j < i.
               path_score tolerance (path_list ! j) < path_score tolerance (path_list ! i))) \<and>
         (\<forall>p :: 'g SimulationPath. path_score tolerance p =
            ((case outcome_type p of
                SUCCESS \<Rightarrow> 100000 | PARTIAL_SUCCESS \<Rightarrow> 50000
              | FAILURE \<Rightarrow> - 10000 | CATASTROPHIC \<Rightarrow> - 50000) - total_cost p)
            * probability p * (1 - risk_score p * (1 - tolerance)))"
proof
  have "recommended_path (analyze_simulation_results tolerance scenario path_list) =
      select_recommended_path tolerance path_list"
    using assms by (simp add: analyze_simulation_results_def Let_def)
  with select_recommended_path_first_max [OF assms, of tolerance]
  show "\<exists>i < length path_list.
            recommended_path (analyze_simulation_results tolerance scenario path_list) =
              Some (path_list ! i) \<and>
            (\<forall>j < length path_list.
               path_score tolerance (path_list ! j) \<le> path_score tolerance (path_list ! i)) \<and>
            (\<forall>j < i.
               path_score tolerance (path_list ! j) < path_score tolerance (path_list ! i))"
    by simp
  show "\<forall>p :: 'g SimulationPath. path_score tolerance p =
            ((case outcome_type p of
                SUCCESS \<Rightarrow> 100000 | PARTIAL_SUCCESS \<Rightarrow> 50000
              | FAILURE \<Rightarrow> - 10000 | CATASTROPHIC \<Rightarrow> - 50000) - total_cost p)
            * probability p * (1 - risk_score p * (1 - tolerance))"
    by (simp add: path_score_def calculate_path_value_def Let_def)
qed

text \<open>Of three paths, the second and the third tie at the maximal score (45000, against
  25000 for the first); the second is recommended.\<close>

theorem recommended_path_first_maximal_witness:
  "[sample_path ''a'' PARTIAL_SUCCESS 0 (1 / 2) 0,
    sample_path ''b'' SUCCESS 10000 (1 / 2) 0,
    sample_path ''c'' SUCCESS 10000 (1 / 2) 0] \<noteq> [] \<and>
   recommended_path (analyze_simulation_results (1 / 2) ''plan''
     [sample_path ''a'' PARTIAL_SUCCESS 0 (1 / 2) 0,
      sample_path ''b'' SUCCESS 10000 (1 / 2) 0,
      sample_path ''c'' SUCCESS 10000 (1 / 2) 0])
   = Some (sample_path ''b'' SUCCESS 10000 (1 / 2) 0)"
proof -
  let ?ps = "[sample_path ''a'' PARTIAL_SUCCESS 0 (1 / 2) 0,
    sample_path ''b'' SUCCESS 10000 (1 / 2) 0,
    sample_path ''c'' SUCCESS 10000 (1 / 2) 0]"
  have ne: "?ps \<noteq> []" by simp
  have scores: "path_score (1 / 2) (?ps ! 0) = 25000" "path_score (1 / 2) (?ps ! 1) = 45000"
    "path_score (1 / 2) (?ps ! 2) = 45000"
    by (simp_all add: path_score_def calculate_path_value_def sample_path_def)
  from recommended_path_first_maximal [OF ne, of "1 / 2" "''plan''"]
  obtain i where i: "i < length ?ps"
    and sel: "recommended_path (analyze_simulation_results (1 / 2) ''plan'' ?ps) =
       Some (?ps ! i)"
    and greatest: "\<forall>j < length ?ps.
       path_score (1 / 2) (?ps ! j) \<le> path_score (1 / 2) (?ps ! i)"
    and first: "\<forall>j < i. path_score (1 / 2) (?ps ! j) < path_score (1 / 2) (?ps ! i)"
    by blast
  from i have "i < 3" by simp
  then consider "i = 0" | "i = 1" | "i = 2" by linarith
  then have "i = 1"
  proof cases
    case 1
    have "(1::nat) < length ?ps" by simp
    with greatest 1 have "path_score (1 / 2) (?ps ! 1) \<le> path_score (1 / 2) (?ps ! 0)"
      by blast
    with scores show ?thesis by simp
  next
    case 2
    then show ?thesis .
  next
    case 3
    have "(1::nat) < 2" by simp
    with first 3 have "path_score (1 / 2) (?ps ! 1) < path_score (1 / 2) (?ps ! 2)"
      by blast
    with scores show ?thesis by simp
  qed
  with sel ne show ?thesis by simp
qed

section \<open>What a Monte Carlo run executes\<close>

lemma topological_sort_total:
  "\<exists>sorted_actions. topological_sort actions = Inr sorted_actions \<and>
     set sorted_actions \<subseteq> set actions"
  using topological_sort_loop_total [of "[]" actions]
  by (auto simp: topological_sort_def)

lemma monte_carlo_step_cases:
  "monte_carlo_step run sorted_actions action st = st \<or>
   monte_carlo_step run sorted_actions action st =
     st\<lparr>random_state := snd (random_random (random_state st))\<rparr> \<or>
   ((\<forall>dep \<in> set (dependencies action). dep \<in> set (map name (executed_actions st))) \<and>
    monte_carlo_step run sorted_actions action st =
     \<lparr>executed_actions = executed_actions st @ [action],
      acc_cost = acc_cost st + cost action,
      acc_duration = acc_duration st + duration action,
      acc_effects = acc_effects st @
        simulate_second_order_effects run action (executed_actions st @ [action])
          sorted_actions,
      random_state = snd (random_random (random_state st))\<rparr>)"
  by (simp add: monte_carlo_step_def Let_def split_beta)


section \<open>Bounds on probability and risk score\<close>






lemma run_monte_carlo_simulation_fields:
  assumes "run_monte_carlo_simulation run actions i g = Inr (p, g')"
  shows "\<exists>sorted_actions st.
           topological_sort actions = Inr sorted_actions \<and>
           set sorted_actions \<subseteq> set actions \<and>
           st = fold (monte_carlo_step run sorted_actions) sorted_actions (initial_state g) \<and>
           actions_taken p = executed_actions st \<and>
           total_cost p = acc_cost st \<and>
           total_duration p = acc_duration st \<and>
           second_order_effects p = acc_effects st \<and>
           probability p = calculate_path_probability (executed_actions st) \<and>
           risk_score p = calculate_risk_score (acc_effects st) (acc_cost st) \<and>
           outcome_type p = determine_outcome (executed_actions st) actions \<and>
           g' = random_state st"
proof -
  from topological_sort_total [of actions] obtain sorted_actions where
    sorted: "topological_sort actions = Inr sorted_actions"
    "set sorted_actions \<subseteq> set actions" by blast
  from assms sorted(1) have
    "p = \<lparr>path_id = ''mc_'' @ str_nat i,
       actions_taken = executed_actions
         (fold (monte_carlo_step run sorted_actions) sorted_actions (initial_state g)),
       outcome_type = determine_outcome (executed_actions
         (fold (monte_carlo_step run sorted_actions) sorted_actions (initial_state g))) actions,
       total_cost = acc_cost
         (fold (monte_carlo_step run sorted_actions) sorted_actions (initial_state g)),
       total_duration = acc_duration
         (fold (monte_carlo_step run sorted_actions) sorted_actions (initial_state g)),
       probability = calculate_path_probability (executed_actions
         (fold (monte_carlo_step run sorted_actions) sorted_actions (initial_state g))),
       second_order_effects = acc_effects
         (fold (monte_carlo_step run sorted_actions) sorted_actions (initial_state g)),
       risk_score = calculate_risk_score
         (acc_effects
           (fold (monte_carlo_step run sorted_actions) sorted_actions (initial_state g)))
         (acc_cost
           (fold (monte_carlo_step run sorted_actions) sorted_actions (initial_state g)))\<rparr>"
    and "g' = random_state
         (fold (monte_carlo_step run sorted_actions) sorted_actions (initial_state g))"
    by (simp_all add: run_monte_carlo_simulation_def Let_def)
  with sorted show ?thesis by simp
qed









section \<open>The high-cost cascade\<close>

text \<open>The synthetic effect of the high-cost rule, for an action, the actions executed so
  far (the action included) and the candidate actions.\<close>

definition budget_pressure_effect ::
  "'g Action \<Rightarrow> 'g Action list \<Rightarrow> 'g Action list \<Rightarrow> SecondOrderEffect" where
  "budget_pressure_effect action executed all_actions =
     \<lparr>source_action = name action,
      effect_description = ''High cost reduces available budget'',
      effect_probability = 0.8,
      impact_magnitude = - 0.3,
      affected_actions = [name a. a \<leftarrow> all_actions, a \<notin> set executed]\<rparr>"

lemma high_cost_effect_emitted:
  assumes "cost action > 10000"
  shows "budget_pressure_effect action executed all_actions
           \<in> set (simulate_second_order_effects run action executed all_actions)"
  using assms
  by (simp add: simulate_second_order_effects_def budget_pressure_effect_def Let_def)

lemma snoc_eq_split:
  assumes "xs @ [x] = pre @ a # post"
  shows "(post = [] \<and> pre = xs \<and> a = x) \<or> (\<exists>post'. post = post' @ [x] \<and> xs = pre @ a # post')"
proof (cases post rule: rev_cases)
  case Nil
  with assms show ?thesis by simp
next
  case (snoc post' y)
  with assms have "xs @ [x] = (pre @ a # post') @ [y]" by simp
  then have "xs = pre @ a # post'" and "x = y" by simp_all
  with snoc show ?thesis by simp
qed

text \<open>Invariant of the sampling loop: every high-cost action executed so far has left
  its budget-pressure effect among the accumulated effects.\<close>

definition cascade_invariant :: "'g Action list \<Rightarrow> 'g sampler_state \<Rightarrow> bool" where
  "cascade_invariant sorted_actions st =
     (\<forall>pre a post. executed_actions st = pre @ a # post \<longrightarrow> cost a > 10000 \<longrightarrow>
        budget_pressure_effect a (pre @ [a]) sorted_actions \<in> set (acc_effects st))"

lemma cascade_invariant_step:
  assumes "cascade_invariant sorted_actions st"
  shows "cascade_invariant sorted_actions (monte_carlo_step run sorted_actions action st)"
proof -
  let ?st' = "monte_carlo_step run sorted_actions action st"
  from monte_carlo_step_cases [of run sorted_actions action st]
  consider (same) "executed_actions ?st' = executed_actions st"
      "acc_effects ?st' = acc_effects st"
    | (executed) "executed_actions ?st' = executed_actions st @ [action]"
      "acc_effects ?st' = acc_effects st @
         simulate_second_order_effects run action (executed_actions st @ [action])
           sorted_actions"
    by (elim disjE conjE) simp_all
  then show ?thesis
  proof cases
    case same
    with assms show ?thesis by (simp add: cascade_invariant_def)
  next
    case executed
    show ?thesis
      unfolding cascade_invariant_def
    proof (intro allI impI)
      fix pre a post
      assume split: "executed_actions ?st' = pre @ a # post" and high: "cost a > 10000"
      from split executed(1) have "executed_actions st @ [action] = pre @ a # post" by simp
      from snoc_eq_split [OF this]
      show "budget_pressure_effect a (pre @ [a]) sorted_actions \<in> set (acc_effects ?st')"
      proof (elim disjE conjE exE)
        assume "post = []" "pre = executed_actions st" "a = action"
        with high executed(2) show ?thesis
          using high_cost_effect_emitted [of action "executed_actions st @ [action]"
              sorted_actions run]
          by simp
      next
        fix post'
        assume "post = post' @ [action]" "executed_actions st = pre @ a # post'"
        with assms high
        have "budget_pressure_effect a (pre @ [a]) sorted_actions \<in> set (acc_effects st)"
          unfolding cascade_invariant_def by blast
        with executed(2) show ?thesis by simp
      qed
    qed
  qed
qed

lemma cascade_invariant_fold:
  assumes "cascade_invariant sorted_actions st"
  shows "cascade_invariant sorted_actions (fold (monte_carlo_step run sorted_actions) xs st)"
  using assms
  by (induction xs arbitrary: st) (simp_all add: cascade_invariant_step)

lemma cascade_invariant_initial: "cascade_invariant sorted_actions (initial_state g)"
  by (simp add: cascade_invariant_def initial_state_def)

text \<open>
  Claim C9: in stochastic mode, every action with cost strictly greater than 10000 that
  executes successfully leaves in the effect list of its path a synthetic budget-pressure
  effect whose source is that action, with probability 0.8, impact magnitude \<open>-0.3\<close>
  and, as affected actions, the names of all candidate actions (the resolver's ordering)
  not yet executed at that moment, that is, other than the actions taken up to and
  including this one.
\<close>

theorem high_cost_cascade:
  assumes "run_monte_carlo_simulation run actions i g = Inr (p, g')"
    and "topological_sort actions = Inr sorted_actions"
    and "actions_taken p = pre @ a # post"
    and "cost a > 10000"
  shows "\<lparr>source_action = name a,
          effect_description = ''High cost reduces available budget'',
          effect_probability = 0.8,
          impact_magnitude = - 0.3,
          affected_actions = [name b. b \<leftarrow> sorted_actions, b \<notin> set (pre @ [a])]\<rparr>
         \<in> set (second_order_effects p)"
proof -
  from run_monte_carlo_simulation_fields [OF assms(1)] assms(2) obtain st where
    st: "st = fold (monte_carlo_step run sorted_actions) sorted_actions (initial_state g)"
    and taken: "actions_taken p = executed_actions st"
    and effects: "second_order_effects p = acc_effects st"
    by auto
  have "cascade_invariant sorted_actions st"
    unfolding st by (rule cascade_invariant_fold) (rule cascade_invariant_initial)
  with assms(3,4) taken
  have "budget_pressure_effect a (pre @ [a]) sorted_actions \<in> set (acc_effects st)"
    unfolding cascade_invariant_def by simp
  with effects show ?thesis by (simp add: budget_pressure_effect_def)
qed

text \<open>A purchase of 20000 and the refund that depends on it, both successful: the
  purchase leaves the budget-pressure effect on the refund, the only action not yet
  executed.\<close>

theorem high_cost_cascade_witness:
  "\<exists>p g'.
     run_monte_carlo_simulation no_generators [costly, refund] 0 (draws_from []) = Inr (p, g') \<and>
     topological_sort [costly, refund] = Inr [costly, refund] \<and>
     actions_taken p = [] @ costly # [refund] \<and>
     cost costly > 10000 \<and>
     \<lparr>source_action = ''purchase'',
      effect_description = ''High cost reduces available budget'',
      effect_probability = 0.8,
      impact_magnitude = - 0.3,
      affected_actions = [''refund'']\<rparr> \<in> set (second_order_effects p)"
proof -
  have sorted: "topological_sort [costly, refund] = Inr [costly, refund]"
    by (simp add: topological_sort_def topological_sort_loop.simps ready_actions_def
        list_remove_def costly_def refund_def plain_action_def)
  have e1: "map_sum id (actions_taken \<circ> fst)
     (run_monte_carlo_simulation no_generators [costly, refund] 0 (draws_from []))
     = Inr [costly, refund]"
    unfolding costly_def refund_def by code_simp
  then obtain p g' where
    run: "run_monte_carlo_simulation no_generators [costly, refund] 0 (draws_from []) =
       Inr (p, g')"
    by (cases "run_monte_carlo_simulation no_generators [costly, refund] 0 (draws_from [])")
      auto
  with e1 have taken: "actions_taken p = [] @ costly # [refund]" by simp
  have high: "cost costly > 10000" by (simp add: costly_def plain_action_def)
  have differ: "refund \<noteq> costly" by (simp add: costly_def refund_def plain_action_def)
  from high_cost_cascade [OF run sorted taken high] differ
  have "\<lparr>source_action = ''purchase'',
      effect_description = ''High cost reduces available budget'',
      effect_probability = 0.8,
      impact_magnitude = - 0.3,
      affected_actions = [''refund'']\<rparr> \<in> set (second_order_effects p)"
    by (simp add: costly_def refund_def plain_action_def)
  with run sorted taken high show ?thesis
    by (intro exI [of _ p] exI [of _ g']) simp
qed

section \<open>The shape of the resolver's result\<close>

lemma dependency_ordered_append:
  assumes "dependency_ordered xs"
    and "\<forall>a \<in> set ys. \<forall>dep \<in> set (dependencies a). dep \<in> set (map name xs)"
  shows "dependency_ordered (xs @ ys)"
  unfolding dependency_ordered_def
proof (intro allI impI ballI)
  fix pre a post dep
  assume split: "xs @ ys = pre @ a # post" and dep: "dep \<in> set (dependencies a)"
  from split consider
      (left) us where "xs = pre @ us" "us @ ys = a # post"
    | (right) us where "xs @ us = pre" "ys = us @ a # post"
    by (auto simp: append_eq_append_conv2)
  then show "dep \<in> set (map name pre)"
  proof cases
    case left
    show ?thesis
    proof (cases us)
      case Nil
      with left have "pre = xs" "a \<in> set ys" by simp_all
      with assms(2) dep show ?thesis by blast
    next
      case (Cons u us')
      with left have "xs = pre @ a # us'" by simp
      with assms(1) dep show ?thesis unfolding dependency_ordered_def by blast
    qed
  next
    case right
    then have "a \<in> set ys" by simp
    with assms(2) dep have "dep \<in> set (map name xs)" by blast
    with right(1) show ?thesis by auto
  qed
qed

lemma ready_actions_complement:
  "[a \<leftarrow> remaining. a \<notin> set (ready_actions sorted_actions remaining)] =
   [a \<leftarrow> remaining.
      \<not> (\<forall>dep \<in> set (dependencies a). dep \<in> set (map name sorted_actions))]"
  by (rule filter_cong) (auto simp: ready_actions_def)

lemma ready_actions_partition:
  "mset (ready_actions sorted_actions remaining) +
   mset [a \<leftarrow> remaining. a \<notin> set (ready_actions sorted_actions remaining)] =
   mset remaining"
  unfolding ready_actions_complement
  by (simp add: ready_actions_def flip: multiset_partition)

lemma resolver_shape:
  assumes "dependency_ordered sorted_actions"
    and "remaining = [a \<leftarrow> actions. a \<notin> set sorted_actions]"
    and "mset sorted_actions + mset remaining = mset actions"
  shows "(\<exists>res. topological_sort_loop sorted_actions remaining = Inr res \<and>
            dependency_ordered res \<and> mset res = mset actions) \<or>
         (\<exists>pre rest.
            topological_sort_loop sorted_actions remaining =
              Inr (pre @ [a \<leftarrow> actions. a \<notin> set pre] @ rest) \<and>
            [a \<leftarrow> actions. a \<notin> set pre] \<noteq> [] \<and>
            dependency_ordered pre \<and>
            mset pre + mset [a \<leftarrow> actions. a \<notin> set pre] = mset actions \<and>
            ready_actions pre [a \<leftarrow> actions. a \<notin> set pre] = [])"
  using assms
proof (induction sorted_actions remaining rule: topological_sort_loop.induct)
  case (1 sorted_actions remaining)
  show ?case
  proof (cases "remaining = []")
    case True
    then have "topological_sort_loop sorted_actions remaining = Inr sorted_actions"
      by (subst topological_sort_loop.simps) simp
    moreover from True "1.prems"(3) have "mset sorted_actions = mset actions" by simp
    ultimately show ?thesis using "1.prems"(1) by blast
  next
    case nonempty: False
    show ?thesis
    proof (cases "ready_actions sorted_actions remaining = []")
      case True
      obtain r where r: "remove_each_aliased 0 remaining = Inr r"
        using remove_each_aliased_total [of 0 remaining] by blast
      have "topological_sort_loop sorted_actions remaining =
          topological_sort_loop (sorted_actions @ remaining) r"
        by (subst topological_sort_loop.simps) (simp add: nonempty True r)
      moreover obtain rest where
        "topological_sort_loop (sorted_actions @ remaining) r =
           Inr ((sorted_actions @ remaining) @ rest)"
        using topological_sort_loop_total [of "sorted_actions @ remaining" r] by blast
      ultimately have "topological_sort_loop sorted_actions remaining =
          Inr (sorted_actions @ [a \<leftarrow> actions. a \<notin> set sorted_actions] @ rest)"
        using "1.prems"(2) by simp
      moreover have "[a \<leftarrow> actions. a \<notin> set sorted_actions] \<noteq> []"
        using nonempty "1.prems"(2) by simp
      moreover have "mset sorted_actions + mset [a \<leftarrow> actions. a \<notin> set sorted_actions] =
          mset actions"
        using "1.prems"(2,3) by simp
      moreover have "ready_actions sorted_actions [a \<leftarrow> actions. a \<notin> set sorted_actions] = []"
        using True "1.prems"(2) by simp
      ultimately show ?thesis using "1.prems"(1) by blast
    next
      case False
      let ?ready = "ready_actions sorted_actions remaining"
      let ?r = "[a \<leftarrow> remaining. a \<notin> set ?ready]"
      have r: "remove_each ?ready remaining = Inr ?r" by (rule remove_each_ready)
      have step: "topological_sort_loop sorted_actions remaining =
          topological_sort_loop (sorted_actions @ ?ready) ?r"
        by (subst topological_sort_loop.simps) (simp add: nonempty False r)
      have "\<forall>a \<in> set ?ready. \<forall>dep \<in> set (dependencies a).
          dep \<in> set (map name sorted_actions)"
        by (simp add: ready_actions_def)
      with "1.prems"(1) have ordered: "dependency_ordered (sorted_actions @ ?ready)"
        by (rule dependency_ordered_append)
      have rest: "?r = [a \<leftarrow> actions. a \<notin> set (sorted_actions @ ?ready)]"
        unfolding "1.prems"(2) by (simp add: conj_commute)
      have "mset (sorted_actions @ ?ready) + mset ?r =
          mset sorted_actions + (mset ?ready + mset ?r)" by simp
      also have "\<dots> = mset sorted_actions + mset remaining"
        by (simp only: ready_actions_partition)
      finally have count: "mset (sorted_actions @ ?ready) + mset ?r = mset actions"
        using "1.prems"(3) by simp
      from "1.IH"(2) [OF nonempty False r ordered rest count] step
      show ?thesis by simp
    qed
  qed
qed

lemma finite_dependency_graph: "finite (dependency_graph actions)"
  by (simp add: dependency_graph_def)

lemma dependency_graph_edge:
  "a \<in> set actions \<Longrightarrow> dep \<in> set (dependencies a) \<Longrightarrow>
     (dep, name a) \<in> dependency_graph actions"
  by (auto simp: dependency_graph_def)

text \<open>In an acyclic graph without dangling names, some action that is not yet ordered has
  all its dependencies ordered.\<close>

lemma acyclic_some_ready:
  assumes acyclic: "acyclic (dependency_graph actions)"
    and present: "dependencies_present actions"
    and nonempty: "[a \<leftarrow> actions. a \<notin> set pre] \<noteq> []"
  shows "ready_actions pre [a \<leftarrow> actions. a \<notin> set pre] \<noteq> []"
proof -
  let ?rest = "[a \<leftarrow> actions. a \<notin> set pre]"
  have wf: "wf (dependency_graph actions)"
    using finite_dependency_graph acyclic by (rule finite_acyclic_wf)
  from nonempty obtain b where "b \<in> set ?rest" by (cases ?rest) auto
  then have "name b \<in> name ` set ?rest" by (rule imageI)
  moreover from wf have "\<forall>Q x. x \<in> Q \<longrightarrow>
      (\<exists>z \<in> Q. \<forall>y. (y, z) \<in> dependency_graph actions \<longrightarrow> y \<notin> Q)"
    by (simp only: wf_eq_minimal)
  ultimately obtain z where z: "z \<in> name ` set ?rest"
    and minimal: "\<forall>y. (y, z) \<in> dependency_graph actions \<longrightarrow> y \<notin> name ` set ?rest"
    by blast
  from z obtain a where a: "a \<in> set ?rest" "z = name a" by blast
  then have a_in: "a \<in> set actions" by simp
  have "\<forall>dep \<in> set (dependencies a). dep \<in> set (map name pre)"
  proof
    fix dep assume dep: "dep \<in> set (dependencies a)"
    with a_in have "(dep, z) \<in> dependency_graph actions"
      unfolding a(2) by (rule dependency_graph_edge)
    with minimal have not_rest: "dep \<notin> name ` set ?rest" by blast
    from present a_in dep have "dep \<in> set (map name actions)"
      unfolding dependencies_present_def by blast
    then obtain c where c: "c \<in> set actions" "dep = name c" by auto
    with not_rest have "c \<notin> set ?rest" by blast
    with c(1) have "c \<in> set pre" by simp
    with c(2) show "dep \<in> set (map name pre)" by simp
  qed
  with a(1) have "a \<in> set (ready_actions pre ?rest)" by (simp add: ready_actions_def)
  then show ?thesis by auto
qed

lemma takeWhile_stops_at:
  "x \<in> set xs \<Longrightarrow> \<not> P x \<Longrightarrow> length (takeWhile P xs) < length xs"
  by (induction xs) auto

text \<open>Conversely, an ordering of the whole set that respects the dependencies exists only
  when the graph is acyclic and no dependency dangles.\<close>

lemma ordered_permutation_acyclic:
  assumes ordered: "dependency_ordered res"
    and perm: "mset res = mset actions"
    and names: "distinct (map name actions)"
  shows "acyclic (dependency_graph actions)" and "dependencies_present actions"
proof -
  from perm have sets: "set res = set actions" by (rule mset_eq_setD)
  from perm have "mset (map name res) = mset (map name actions)" by simp
  from mset_eq_imp_distinct_iff [OF this] names
  have distinct: "distinct (map name res)" by blast
  define rank where "rank n = length (takeWhile (\<lambda>a. name a \<noteq> n) res)" for n
  have "dependency_graph actions \<subseteq> measure rank"
  proof
    fix e assume "e \<in> dependency_graph actions"
    then obtain a dep where e: "e = (dep, name a)" and a: "a \<in> set res"
      and dep: "dep \<in> set (dependencies a)"
      by (auto simp: dependency_graph_def sets)
    from a obtain pre post where split: "res = pre @ a # post"
      by (auto dest: split_list)
    with ordered dep have "dep \<in> set (map name pre)"
      unfolding dependency_ordered_def by blast
    then obtain b where b: "b \<in> set pre" "\<not> name b \<noteq> dep" by auto
    then have "length (takeWhile (\<lambda>a. name a \<noteq> dep) pre) < length pre"
      by (rule takeWhile_stops_at)
    moreover from b
    have "takeWhile (\<lambda>a. name a \<noteq> dep) res = takeWhile (\<lambda>a. name a \<noteq> dep) pre"
      unfolding split by simp
    ultimately have low: "rank dep < length pre" by (simp add: rank_def)
    from distinct have "distinct (map name (pre @ a # post))" by (simp only: split)
    then have "name a \<notin> name ` set pre" by simp
    then have "\<forall>x \<in> set pre. name x \<noteq> name a" by (metis imageI)
    then have "takeWhile (\<lambda>b. name b \<noteq> name a) res = pre"
      unfolding split by simp
    then have "rank (name a) = length pre" by (simp add: rank_def)
    with low e show "e \<in> measure rank" by simp
  qed
  with wf_acyclic [OF wf_measure [of rank]]
  show "acyclic (dependency_graph actions)" by (rule acyclic_subset)
  show "dependencies_present actions"
    unfolding dependencies_present_def
  proof (intro ballI)
    fix a dep assume "a \<in> set actions" and dep: "dep \<in> set (dependencies a)"
    with sets have "a \<in> set res" by simp
    then obtain pre post where split: "res = pre @ a # post"
      by (auto dest: split_list)
    with ordered dep have "dep \<in> set (map name pre)"
      unfolding dependency_ordered_def by blast
    with split have "dep \<in> set (map name res)" by auto
    with sets show "dep \<in> set (map name actions)" by simp
  qed
qed

lemma topological_sort_shape:
  "(\<exists>res. topological_sort actions = Inr res \<and>
      dependency_ordered res \<and> mset res = mset actions) \<or>
   (\<exists>pre rest.
      topological_sort actions = Inr (pre @ [a \<leftarrow> actions. a \<notin> set pre] @ rest) \<and>
      [a \<leftarrow> actions. a \<notin> set pre] \<noteq> [] \<and>
      dependency_ordered pre \<and>
      mset pre + mset [a \<leftarrow> actions. a \<notin> set pre] = mset actions \<and>
      ready_actions pre [a \<leftarrow> actions. a \<notin> set pre] = [])"
proof -
  have "dependency_ordered []" by (simp add: dependency_ordered_def)
  moreover have "actions = [a \<leftarrow> actions. a \<notin> set []]" by simp
  moreover have "mset [] + mset actions = mset actions" by simp
  ultimately show ?thesis
    unfolding topological_sort_def by (rule resolver_shape)
qed

section \<open>Claims about the resolver\<close>

text \<open>
  Claim C5: for every action set with unique names whose dependency graph is acyclic and
  whose every listed dependency names an action of the set, the resolver returns an
  ordering (a permutation of the input) in which each action appears after actions
  bearing all the names in its dependency list.
\<close>

theorem resolve_order_respects_dependencies:
  assumes "distinct (map name actions)"
    and "acyclic (dependency_graph actions)"
    and "dependencies_present actions"
  shows "\<exists>res. topological_sort actions = Inr res \<and>
           mset res = mset actions \<and>
           (\<forall>pre a post. res = pre @ a # post \<longrightarrow>
              (\<forall>dep \<in> set (dependencies a). dep \<in> set (map name pre)))"
proof -
  from topological_sort_shape [of actions] show ?thesis
  proof (elim disjE exE conjE)
    fix res
    assume "topological_sort actions = Inr res" "dependency_ordered res"
      "mset res = mset actions"
    then show ?thesis unfolding dependency_ordered_def by blast
  next
    fix pre rest
    assume "[a \<leftarrow> actions. a \<notin> set pre] \<noteq> []"
      and none: "ready_actions pre [a \<leftarrow> actions. a \<notin> set pre] = []"
    with acyclic_some_ready [OF assms(2,3), of pre] show ?thesis by blast
  qed
qed

text \<open>The plan \<open>second\<close>, \<open>first\<close>, where \<open>second\<close> depends on \<open>first\<close>, is put in the
  order \<open>first\<close>, \<open>second\<close>.\<close>

theorem resolve_order_respects_dependencies_witness:
  "distinct (map name [step_second, step_first]) \<and>
   acyclic (dependency_graph [step_second, step_first]) \<and>
   dependencies_present [step_second, step_first] \<and>
   topological_sort [step_second, step_first] = Inr [step_first, step_second] \<and>
   (\<exists>res. topological_sort [step_second, step_first] = Inr res \<and>
      mset res = mset [step_second, step_first] \<and>
      (\<forall>pre a post. res = pre @ a # post \<longrightarrow>
         (\<forall>dep \<in> set (dependencies a). dep \<in> set (map name pre))))"
proof -
  have names: "distinct (map name [step_second, step_first])"
    by (simp add: step_first_def step_second_def plain_action_def)
  have graph: "dependency_graph [step_second, step_first] = {(''first'', ''second'')}"
    by (simp add: dependency_graph_def step_first_def step_second_def plain_action_def)
  have acyclic: "acyclic (dependency_graph [step_second, step_first])"
  proof -
    have "acyclic ({} :: (string \<times> string) set)" by (rule wf_acyclic) simp
    then show ?thesis unfolding graph by simp
  qed
  have present: "dependencies_present [step_second, step_first]"
    by (simp add: dependencies_present_def step_first_def step_second_def plain_action_def)
  have sorted: "topological_sort [step_second, step_first] = Inr [step_first, step_second]"
    by (simp add: topological_sort_def topological_sort_loop.simps ready_actions_def
        list_remove_def step_first_def step_second_def plain_action_def)
  from resolve_order_respects_dependencies [OF names acyclic present] names acyclic present
    sorted
  show ?thesis by blast
qed

text \<open>A plan with a dangling dependency and a clean plan with the same result.\<close>

lemma dangling_and_clean_same_result:
  "\<not> dependencies_present [dangling] \<and>
   acyclic (dependency_graph [unlucky]) \<and> dependencies_present [unlucky] \<and>
   map_sum id fst
     (simulate_scenario no_generators default_simulator (draws_from [0.9]) ''x''
        [dangling] 1 True) =
   map_sum id fst
     (simulate_scenario no_generators default_simulator (draws_from [0.9]) ''x''
        [unlucky] 1 True) \<and>
   map_sum id (map actions_taken \<circ> paths \<circ> fst)
     (simulate_scenario no_generators default_simulator (draws_from [0.9]) ''x''
        [dangling] 1 True) = Inr [[]]"
proof -
  have "\<not> dependencies_present [dangling]"
    by (simp add: dependencies_present_def dangling_def plain_action_def)
  moreover have "acyclic ({} :: (string \<times> string) set)" by (rule wf_acyclic) simp
  then have "acyclic (dependency_graph [unlucky])"
    by (simp add: dependency_graph_def unlucky_def plain_action_def)
  moreover have "dependencies_present [unlucky]"
    by (simp add: dependencies_present_def unlucky_def plain_action_def)
  moreover have "map_sum id fst
     (simulate_scenario no_generators default_simulator (draws_from [0.9]) ''x''
        [dangling] 1 True) =
   map_sum id fst
     (simulate_scenario no_generators default_simulator (draws_from [0.9]) ''x''
        [unlucky] 1 True)"
    unfolding dangling_def unlucky_def by code_simp
  moreover have "map_sum id (map actions_taken \<circ> paths \<circ> fst)
     (simulate_scenario no_generators default_simulator (draws_from [0.9]) ''x''
        [dangling] 1 True) = Inr [[]]"
    unfolding dangling_def by code_simp
  ultimately show ?thesis by blast
qed

text \<open>
  Claim C1, as the specification states it: when the dependency graph has a cycle or a
  dangling dependency, the simulation run reports an UnresolvedDependency condition
  alongside its result, so that callers can tell a degraded ordering from a clean one.
  \<^verbatim>\<open>ScenarioResult\<close> has no field for such a condition and nothing else is returned.
  One action with a dependency that no action bears, and one action without
  dependencies whose draw (0.9) fails, give the same result: one path without actions.
\<close>

theorem unresolved_dependency_not_reported:
  "\<not> dependencies_present [dangling] \<and>
   acyclic (dependency_graph [unlucky]) \<and> dependencies_present [unlucky] \<and>
   map_sum id fst
     (simulate_scenario no_generators default_simulator (draws_from [0.9]) ''x''
        [dangling] 1 True) =
   map_sum id fst
     (simulate_scenario no_generators default_simulator (draws_from [0.9]) ''x''
        [unlucky] 1 True) \<and>
   map_sum id (map actions_taken \<circ> paths \<circ> fst)
     (simulate_scenario no_generators default_simulator (draws_from [0.9]) ''x''
        [dangling] 1 True) = Inr [[]]"
  by (rule dangling_and_clean_same_result)

text \<open>
  Claim C1, amended: for every action set with unique names whose dependency graph
  contains a cycle or a dependency naming a missing action, the resolver returns (it
  neither hangs nor raises) a sequence that starts with a dependency-respecting ordering
  \<open>pre\<close> of some of the actions, followed by all the remaining actions in their original
  input order, none of which is ready after \<open>pre\<close>. (What follows the appended actions in
  the resolver's sequence is left open.) The simulation run reports no
  UnresolvedDependency condition: a plan with a dangling dependency can return exactly
  the result of a clean plan, so a caller cannot tell a degraded ordering from a clean
  one.
\<close>

theorem unresolved_dependencies_fallback:
  assumes "distinct (map name actions)"
    and "\<not> (acyclic (dependency_graph actions) \<and> dependencies_present actions)"
  shows "(\<exists>pre rest.
            topological_sort actions = Inr (pre @ [a \<leftarrow> actions. a \<notin> set pre] @ rest) \<and>
            [a \<leftarrow> actions. a \<notin> set pre] \<noteq> [] \<and>
            dependency_ordered pre \<and>
            mset pre + mset [a \<leftarrow> actions. a \<notin> set pre] = mset actions \<and>
            ready_actions pre [a \<leftarrow> actions. a \<notin> set pre] = []) \<and>
         (\<not> dependencies_present [dangling] \<and>
          acyclic (dependency_graph [unlucky]) \<and> dependencies_present [unlucky] \<and>
          map_sum id fst
            (simulate_scenario no_generators default_simulator (draws_from [0.9]) ''x''
               [dangling] 1 True) =
          map_sum id fst
            (simulate_scenario no_generators default_simulator (draws_from [0.9]) ''x''
               [unlucky] 1 True) \<and>
          map_sum id (map actions_taken \<circ> paths \<circ> fst)
            (simulate_scenario no_generators default_simulator (draws_from [0.9]) ''x''
               [dangling] 1 True) = Inr [[]])"
proof
  from topological_sort_shape [of actions]
  show "\<exists>pre rest.
            topological_sort actions = Inr (pre @ [a \<leftarrow> actions. a \<notin> set pre] @ rest) \<and>
            [a \<leftarrow> actions. a \<notin> set pre] \<noteq> [] \<and>
            dependency_ordered pre \<and>
            mset pre + mset [a \<leftarrow> actions. a \<notin> set pre] = mset actions \<and>
            ready_actions pre [a \<leftarrow> actions. a \<notin> set pre] = []"
  proof (elim disjE exE conjE)
    fix res
    assume "dependency_ordered res" "mset res = mset actions"
    from ordered_permutation_acyclic [OF this assms(1)] assms(2)
    show ?thesis by blast
  next
    fix pre rest
    assume "topological_sort actions = Inr (pre @ [a \<leftarrow> actions. a \<notin> set pre] @ rest)"
      "[a \<leftarrow> actions. a \<notin> set pre] \<noteq> []" "dependency_ordered pre"
      "mset pre + mset [a \<leftarrow> actions. a \<notin> set pre] = mset actions"
      "ready_actions pre [a \<leftarrow> actions. a \<notin> set pre] = []"
    then show ?thesis by blast
  qed
  show "\<not> dependencies_present [dangling] \<and>
          acyclic (dependency_graph [unlucky]) \<and> dependencies_present [unlucky] \<and>
          map_sum id fst
            (simulate_scenario no_generators default_simulator (draws_from [0.9]) ''x''
               [dangling] 1 True) =
          map_sum id fst
            (simulate_scenario no_generators default_simulator (draws_from [0.9]) ''x''
               [unlucky] 1 True) \<and>
          map_sum id (map actions_taken \<circ> paths \<circ> fst)
            (simulate_scenario no_generators default_simulator (draws_from [0.9]) ''x''
               [dangling] 1 True) = Inr [[]]"
    by (rule dangling_and_clean_same_result)
qed

text \<open>For the plan \<open>A\<close>, \<open>first\<close>, where \<open>A\<close> depends on a name that no action bears,
  the resolver orders \<open>first\<close> and then appends \<open>A\<close>.\<close>

theorem unresolved_dependencies_fallback_witness:
  "distinct (map name [dangling, step_first]) \<and>
   \<not> (acyclic (dependency_graph [dangling, step_first]) \<and>
      dependencies_present [dangling, step_first]) \<and>
   topological_sort [dangling, step_first] = Inr [step_first, dangling] \<and>
   (\<exists>pre rest.
      topological_sort [dangling, step_first] =
        Inr (pre @ [a \<leftarrow> [dangling, step_first]. a \<notin> set pre] @ rest) \<and>
      [a \<leftarrow> [dangling, step_first]. a \<notin> set pre] \<noteq> [] \<and>
      dependency_ordered pre \<and>
      mset pre + mset [a \<leftarrow> [dangling, step_first]. a \<notin> set pre] =
        mset [dangling, step_first] \<and>
      ready_actions pre [a \<leftarrow> [dangling, step_first]. a \<notin> set pre] = [])"
proof -
  have names: "distinct (map name [dangling, step_first])"
    by (simp add: dangling_def step_first_def plain_action_def)
  have "\<not> dependencies_present [dangling, step_first]"
    by (simp add: dependencies_present_def dangling_def step_first_def plain_action_def)
  then have degraded: "\<not> (acyclic (dependency_graph [dangling, step_first]) \<and>
      dependencies_present [dangling, step_first])" by simp
  have sorted: "topological_sort [dangling, step_first] = Inr [step_first, dangling]"
    by (simp add: topological_sort_def topological_sort_loop.simps
        remove_each_aliased.simps ready_actions_def list_remove_def
        dangling_def step_first_def plain_action_def)
  from unresolved_dependencies_fallback [OF names degraded] names degraded sorted
  show ?thesis by (intro conjI) blast+
qed

end
